theory Spec2Isabelle
  imports Complex_Main "HOL-Library.Word"
begin

section \<open>Strings, the runtime's tables\<close>

text \<open>
  A Python \<open>str\<close> is a sequence of code points, here natural numbers; \<open>lit\<close> turns an
  ASCII literal into one. What \<open>gradio_app.py\<close> takes from the Python runtime and does not
  define itself is a parameter: which code points beyond ASCII count as word characters for
  \<open>\W\<close>, which characters \<open>int()\<close> skips as blanks and reads as decimal digits beyond
  printable ASCII, and the limit on the digits of an integer literal (0: no limit).
\<close>

type_synonym str = "nat list"

definition lit :: "string \<Rightarrow> str" where
  "lit s = map of_char s"

record runtime =
  word_table :: "nat \<Rightarrow> bool"
  blank_table :: "nat \<Rightarrow> bool"
  decimal_table :: "nat \<Rightarrow> nat option"
  max_str_digits :: nat

text \<open>A runtime whose tables hold nothing beyond ASCII, for evaluating concrete inputs.\<close>

definition ascii_runtime :: runtime where
  "ascii_runtime =
     \<lparr>word_table = (\<lambda>c. False), blank_table = (\<lambda>c. False),
      decimal_table = (\<lambda>c. None), max_str_digits = 4300\<rparr>"

section \<open>File names (\<open>generate_audio\<close>, lines 66 to 76)\<close>

text \<open>
  \<open>re.sub(r'\W+', '_', prompt)\<close>: every maximal run of characters that are not word
  characters becomes one underscore. A word character is an alphanumeric one or the
  underscore itself (code point 95).
\<close>

definition ascii_alnum :: "nat \<Rightarrow> bool" where
  "ascii_alnum c = ((48 \<le> c \<and> c \<le> 57) \<or> (65 \<le> c \<and> c \<le> 90) \<or> (97 \<le> c \<and> c \<le> 122))"

definition is_word :: "runtime \<Rightarrow> nat \<Rightarrow> bool" where
  "is_word R c = (c = 95 \<or> (if c < 128 then ascii_alnum c else word_table R c))"

function sub_W :: "runtime \<Rightarrow> str \<Rightarrow> str" where
  "sub_W R [] = []"
| "sub_W R (c # cs) =
     (if is_word R c then c # sub_W R cs
      else 95 # sub_W R (dropWhile (\<lambda>d. \<not> is_word R d) cs))"
  by pat_completeness auto
termination
  by (relation "measure (\<lambda>(R, s). length s)") (auto simp: length_dropWhile_le less_Suc_eq_le)

definition filename_of :: "runtime \<Rightarrow> str \<Rightarrow> str" where
  "filename_of R prompt = sub_W R prompt @ lit ''.mp3''"

text \<open>The decimal text of the counter in \<open>f"{base_filename[:-4]}_{counter}.mp3"\<close>.\<close>

function str_of_nat :: "nat \<Rightarrow> str" where
  "str_of_nat n = (if n < 10 then [48 + n] else str_of_nat (n div 10) @ [48 + n mod 10])"
  by pat_completeness auto
termination
  by (relation "measure (\<lambda>n. n)") auto

declare str_of_nat.simps [simp del]

text \<open>
  \<open>base_filename[:-4]\<close> drops the last four characters (all of them when there are
  fewer), which is what truncating subtraction gives.
\<close>

definition numbered :: "str \<Rightarrow> nat \<Rightarrow> str" where
  "numbered base_filename counter =
     take (length base_filename - 4) base_filename @ lit ''_'' @ str_of_nat counter @ lit ''.mp3''"

text \<open>\<open>os.path.join\<close> of two components, on a POSIX system (separator \<open>/\<close>, 47).\<close>

definition join :: "str \<Rightarrow> str \<Rightarrow> str" where
  "join a b =
     (if b \<noteq> [] \<and> hd b = 47 then b
      else if a = [] \<or> last a = 47 then a @ b
      else a @ [47] @ b)"

text \<open>
  The file system: finitely many paths, each a regular file with its bytes or a
  directory. Paths are compared as the program spells them. \<open>os.path.exists\<close> holds of
  files and of directories.
\<close>

type_synonym bytes = "8 word list"

datatype node = File bytes | Dir

type_synonym fsys = "(str \<times> node) list"

definition path_exists :: "fsys \<Rightarrow> str \<Rightarrow> bool" where
  "path_exists fs p = (map_of fs p \<noteq> None)"

lemma str_of_nat_nonempty: "str_of_nat n \<noteq> []"
  by (subst str_of_nat.simps) simp

lemma str_of_nat_inject: "str_of_nat n = str_of_nat m \<Longrightarrow> n = m"
proof (induction n arbitrary: m rule: str_of_nat.induct)
  case (1 n)
  show ?case
  proof (cases "n < 10")
    case small: True
    show ?thesis
    proof (cases "m < 10")
      case True
      with small "1.prems" show ?thesis
        by (simp add: str_of_nat.simps [of n] str_of_nat.simps [of m])
    next
      case False
      with small "1.prems" show ?thesis
        using str_of_nat_nonempty [of "m div 10"]
        by (simp add: str_of_nat.simps [of n] str_of_nat.simps [of m])
    qed
  next
    case big: False
    show ?thesis
    proof (cases "m < 10")
      case True
      with big "1.prems" show ?thesis
        using str_of_nat_nonempty [of "n div 10"]
        by (simp add: str_of_nat.simps [of n] str_of_nat.simps [of m])
    next
      case False
      with big "1.prems" have eq: "str_of_nat (n div 10) = str_of_nat (m div 10)"
        and md: "n mod 10 = m mod 10"
        by (simp_all add: str_of_nat.simps [of n] str_of_nat.simps [of m])
      from "1.IH" [OF big eq] have "n div 10 = m div 10" .
      with md show ?thesis
        by (metis div_mult_mod_eq)
    qed
  qed
qed

text \<open>All numbered candidates of one request share what stands before the counter.\<close>

lemma join_numbered:
  "\<exists>Q. \<forall>k. join sp (numbered b k) = Q @ str_of_nat k @ lit ''.mp3''"
proof -
  let ?P = "take (length b - 4) b @ lit ''_''"
  have P: "?P \<noteq> []" by (simp add: lit_def)
  have n: "\<And>k. numbered b k = ?P @ str_of_nat k @ lit ''.mp3''"
    by (simp add: numbered_def)
  have hd: "\<And>k. hd (numbered b k) = hd ?P"
    using P by (simp add: n del: append_assoc)
  have ne: "\<And>k. numbered b k \<noteq> []"
    by (simp add: n lit_def)
  show ?thesis
  proof (cases "hd ?P = 47")
    case True
    then have "\<forall>k. join sp (numbered b k) = ?P @ str_of_nat k @ lit ''.mp3''"
      using hd ne by (simp add: join_def n)
    then show ?thesis by blast
  next
    case False
    show ?thesis
    proof (cases "sp = [] \<or> last sp = 47")
      case True
      with False have "\<forall>k. join sp (numbered b k) = (sp @ ?P) @ str_of_nat k @ lit ''.mp3''"
        using hd ne by (auto simp add: join_def n)
      then show ?thesis by blast
    next
      case nosep: False
      with False have "\<forall>k. join sp (numbered b k) = (sp @ [47] @ ?P) @ str_of_nat k @ lit ''.mp3''"
        using hd ne by (auto simp add: join_def n)
      then show ?thesis by blast
    qed
  qed
qed

lemma join_numbered_inject:
  "join sp (numbered b k) = join sp (numbered b k') \<Longrightarrow> k = k'"
  using join_numbered [of sp b] by (auto dest: str_of_nat_inject)

lemma finite_taken: "finite {k. path_exists fs (join sp (numbered b k))}"
proof -
  have "{k. path_exists fs (join sp (numbered b k))}
          = (\<lambda>k. join sp (numbered b k)) -` dom (map_of fs)"
    by (auto simp: path_exists_def)
  moreover have "inj (\<lambda>k. join sp (numbered b k))"
    by (rule injI) (erule join_numbered_inject)
  ultimately show ?thesis
    by (simp add: finite_vimageI finite_dom_map_of)
qed

text \<open>
  The \<open>while os.path.exists(full_path)\<close> loop. It ends because the candidates are
  pairwise distinct and the file system holds finitely many paths: each round leaves one
  taken candidate fewer ahead of the counter.
\<close>

function probe :: "fsys \<Rightarrow> str \<Rightarrow> str \<Rightarrow> str \<Rightarrow> nat \<Rightarrow> str" where
  "probe fs save_path base_filename full_path counter =
     (if path_exists fs full_path
      then probe fs save_path base_filename
             (join save_path (numbered base_filename counter)) (counter + 1)
      else full_path)"
  by pat_completeness auto
termination
proof (relation "measure (\<lambda>(fs, sp, b, full, c).
          if path_exists fs full
          then Suc (card {k. c \<le> k \<and> path_exists fs (join sp (numbered b k))}) else 0)",
       goal_cases)
  case 1
  show ?case by simp
next
  case (2 fs sp b full c)
  let ?S = "\<lambda>c. {k. c \<le> k \<and> path_exists fs (join sp (numbered b k))}"
  have fin: "finite (?S c)"
    by (rule finite_subset [OF _ finite_taken [of fs sp b]]) auto
  show ?case
  proof (cases "path_exists fs (join sp (numbered b c))")
    case True
    have "c \<in> ?S c" "c \<notin> ?S (c + 1)" "?S (c + 1) \<subseteq> ?S c"
      using True by auto
    then have "?S (c + 1) \<subset> ?S c"
      by blast
    then have "card (?S (c + 1)) < card (?S c)"
      by (rule psubset_card_mono [OF fin])
    with 2 True show ?thesis by simp
  next
    case False
    with 2 show ?thesis by simp
  qed
qed

declare probe.simps [simp del]

text \<open>Lines 67 to 76 together: the name from the prompt, then the probe from counter 1.\<close>

definition unique_path :: "runtime \<Rightarrow> fsys \<Rightarrow> str \<Rightarrow> str \<Rightarrow> str" where
  "unique_path R fs save_path prompt =
     (let filename = filename_of R prompt;
          full_path = join save_path filename
      in probe fs save_path filename full_path 1)"

text \<open>A directory in which a name and its first variant are taken.\<close>

definition taken_twice :: fsys where
  "taken_twice =
     [(lit ''Output/2024-01-01/Test_Tone_.mp3'', File []),
      (lit ''Output/2024-01-01/Test_Tone__1.mp3'', File [])]"

section \<open>Exceptions\<close>

text \<open>
  An exception is its class and the text \<open>str(e)\<close> gives. \<open>LibraryError\<close> stands for
  whatever subclass of \<open>Exception\<close> the libraries outside this file raise (the model, the
  codec, the operating system's refusals). Exceptions that are not subclasses of
  \<open>Exception\<close>, such as \<open>KeyboardInterrupt\<close>, are not modelled.
\<close>

datatype exn_class =
  ValueError | OverflowError | RuntimeError | FileExistsError | IsADirectoryError
  | FileNotFoundError | LibraryError

datatype exn = Exn (cls: exn_class) (message: str)

section \<open>The wait time (\<open>audio_generator\<close>, lines 97 to 102)\<close>













section \<open>Waveform post-processing (\<open>generate_audio\<close>, lines 47 to 51)\<close>

text \<open>
  A sample of a \<open>float32\<close> tensor is a rational number, an infinity or NaN. The two zeros
  of the format are one value here: the program divides only by a maximum of absolute
  values, whose zero is the positive one. The model's output is taken to be \<open>float32\<close>
  already, so that \<open>.to(torch.float32)\<close> changes nothing.
\<close>

datatype f32 = Fin rat | PInf | NInf | NaN

text \<open>
  Rounding to binary32, to nearest with ties to even: 24 binary digits of significand,
  \<open>2 ^ -149\<close> as the smallest unit, infinity from \<open>2 ^ 128\<close> on. The magnitude is taken in
  units of \<open>2 ^ -149\<close>; \<open>blen\<close> counts its binary digits, and those beyond 24 are rounded
  away.
\<close>

fun blen :: "nat \<Rightarrow> nat" where
  "blen n = (if n = 0 then 0 else Suc (blen (n div 2)))"

declare blen.simps [simp del]

definition round_even :: "rat \<Rightarrow> int" where
  "round_even x =
     (let f = \<lfloor>x\<rfloor>; d = x - of_int f
      in if d < 1 / 2 then f
         else if 1 / 2 < d then f + 1
         else if even f then f else f + 1)"

definition round_f32 :: "rat \<Rightarrow> f32" where
  "round_f32 q =
     (let x = \<bar>q\<bar> * 2 ^ 149;
          e = blen (nat \<lfloor>x\<rfloor>) - 24;
          m = round_even (x / 2 ^ e) * 2 ^ e
      in if 2 ^ 277 \<le> m then (if 0 < q then PInf else NInf)
         else Fin (sgn q * of_int m / 2 ^ 149))"

text \<open>
  The operations of line 51 on one sample: \<open>torch.abs\<close>, the step of the \<open>torch.max\<close>
  reduction (which hands NaN on), \<open>div\<close>, \<open>clamp(-1, 1)\<close> and \<open>mul\<close> by a finite factor.
\<close>

fun fabs :: "f32 \<Rightarrow> f32" where
  "fabs (Fin q) = Fin \<bar>q\<bar>"
| "fabs PInf = PInf"
| "fabs NInf = PInf"
| "fabs NaN = NaN"

fun fmax :: "f32 \<Rightarrow> f32 \<Rightarrow> f32" where
  "fmax NaN y = NaN"
| "fmax x NaN = NaN"
| "fmax PInf y = PInf"
| "fmax x PInf = PInf"
| "fmax NInf y = y"
| "fmax x NInf = x"
| "fmax (Fin a) (Fin b) = Fin (max a b)"

fun fdiv :: "f32 \<Rightarrow> f32 \<Rightarrow> f32" where
  "fdiv NaN y = NaN"
| "fdiv x NaN = NaN"
| "fdiv (Fin a) (Fin b) =
     (if b = 0 then (if a = 0 then NaN else if 0 < a then PInf else NInf)
      else round_f32 (a / b))"
| "fdiv (Fin a) y = Fin 0"
| "fdiv PInf (Fin b) = (if 0 \<le> b then PInf else NInf)"
| "fdiv NInf (Fin b) = (if 0 \<le> b then NInf else PInf)"
| "fdiv x y = NaN"

fun fclamp :: "f32 \<Rightarrow> f32" where
  "fclamp NaN = NaN"
| "fclamp PInf = Fin 1"
| "fclamp NInf = Fin (- 1)"
| "fclamp (Fin q) = Fin (max (- 1) (min 1 q))"

fun fmul :: "f32 \<Rightarrow> rat \<Rightarrow> f32" where
  "fmul NaN k = NaN"
| "fmul (Fin q) k = round_f32 (q * k)"
| "fmul PInf k = (if k = 0 then NaN else if 0 < k then PInf else NInf)"
| "fmul NInf k = (if k = 0 then NaN else if 0 < k then NInf else PInf)"

text \<open>
  \<open>.to(torch.int16)\<close> drops the fraction (it rounds toward zero). For NaN, an infinity or
  a value outside the 16-bit range the conversion is not defined by the language the
  library is written in; what the platform returns there is the parameter \<open>undef\<close>.
\<close>

definition trunc_zero :: "rat \<Rightarrow> int" where
  "trunc_zero q = (if 0 \<le> q then \<lfloor>q\<rfloor> else \<lceil>q\<rceil>)"

fun to_int16 :: "(f32 \<Rightarrow> int) \<Rightarrow> f32 \<Rightarrow> int" where
  "to_int16 undef (Fin q) =
     (if - 32768 \<le> trunc_zero q \<and> trunc_zero q \<le> 32767 then trunc_zero q else undef (Fin q))"
| "to_int16 undef x = undef x"

text \<open>\<open>torch.max\<close> of a tensor without elements raises.\<close>

definition empty_max :: exn where
  "empty_max = Exn RuntimeError (lit ''max(): Expected reduction dim to be specified for input.numel() == 0. Specify the reduction dim with the 'dim' argument.'')"

definition tensor_max :: "f32 list list \<Rightarrow> exn + f32" where
  "tensor_max t = (case concat t of [] \<Rightarrow> Inl empty_max | x # xs \<Rightarrow> Inr (foldl fmax x xs))"

text \<open>
  Line 51 in two halves, on the tensor of shape (channels, samples):
  \<open>output.to(torch.float32).div(torch.max(torch.abs(output)))\<close>, then
  \<open>.clamp(-1, 1).mul(32767).to(torch.int16)\<close>. Nothing stands between the maximum and
  the division.
\<close>

definition peak_normalize :: "f32 list list \<Rightarrow> exn + f32 list list" where
  "peak_normalize output =
     (case tensor_max (map (map fabs) output) of
        Inl e \<Rightarrow> Inl e
      | Inr peak \<Rightarrow> Inr (map (map (\<lambda>x. fdiv x peak)) output))"

definition scale16 :: "f32 \<Rightarrow> f32" where
  "scale16 x = fmul (fclamp x) 32767"

definition post_process :: "(f32 \<Rightarrow> int) \<Rightarrow> f32 list list \<Rightarrow> exn + int list list" where
  "post_process undef output =
     (case peak_normalize output of
        Inl e \<Rightarrow> Inl e
      | Inr normal \<Rightarrow> Inr (map (map (\<lambda>x. to_int16 undef (scale16 x))) normal))"

text \<open>
  Line 48, \<open>rearrange(output, "b d n -> d (b n)")\<close>: per channel, the batches one after
  the other.
\<close>

definition rearrange :: "'a list list list \<Rightarrow> 'a list list" where
  "rearrange output = map concat (transpose output)"

text \<open>
  The quantisation in the words of the specification, for comparison: scale by 32767 and
  round to the nearest integer.
\<close>

definition quantize_nearest :: "rat \<Rightarrow> int" where
  "quantize_nearest c = round (c * 32767)"

section \<open>Properties of the file names\<close>

subsection \<open>The sanitised stem\<close>

lemma is_word_underscore: "is_word R 95"
  by (simp add: is_word_def)

lemma sub_W_words: "c \<in> set (sub_W R s) \<Longrightarrow> is_word R c"
  by (induction R s rule: sub_W.induct) (auto simp: is_word_underscore split: if_splits)

lemma sub_W_fixed: "\<forall>c\<in>set s. is_word R c \<Longrightarrow> sub_W R s = s"
  by (induction s) auto

lemma sub_W_run: "s \<noteq> [] \<Longrightarrow> \<forall>c\<in>set s. \<not> is_word R c \<Longrightarrow> sub_W R s = [95]"
proof (cases s)
  case Nil
  assume "s \<noteq> []" with Nil show ?thesis by simp
next
  case (Cons c cs)
  assume a: "\<forall>c\<in>set s. \<not> is_word R c"
  with Cons have dw: "dropWhile (\<lambda>d. \<not> is_word R d) cs = []"
    by (simp add: dropWhile_eq_Nil_conv)
  from a Cons have "\<not> is_word R c" by simp
  then show ?thesis unfolding Cons by (simp add: dw)
qed

text \<open>
  C6, as the code has it. The sanitiser is total and idempotent: for every prompt, applying
  \<open>re.sub(r'\W+', '_', \<dots>)\<close> to its own result changes nothing. Every non-empty prompt
  made only of non-word characters (neither alphanumeric nor the underscore) becomes the
  single underscore. The empty prompt has the empty stem, so its file name is the bare
  extension \<open>.mp3\<close>: the program has no placeholder for it.
\<close>

theorem sanitize_idempotent:
  "sub_W R (sub_W R p) = sub_W R p
   \<and> (p \<noteq> [] \<and> (\<forall>c\<in>set p. \<not> is_word R c) \<longrightarrow> sub_W R p = lit ''_'')
   \<and> filename_of R [] = lit ''.mp3''"
  using sub_W_words [of _ R p] sub_W_run [of p R]
  by (auto simp: sub_W_fixed lit_def filename_of_def)

text \<open>The theorem at the prompts \<open>Test Tone!!\<close> and \<open>?!\<close> followed by a blank.\<close>

theorem sanitize_idempotent_witness:
  "sub_W ascii_runtime (sub_W ascii_runtime (lit ''Test Tone!!'')) = lit ''Test_Tone_''
   \<and> sub_W ascii_runtime (lit ''?! '') = lit ''_''"
  using sanitize_idempotent [of ascii_runtime "lit ''Test Tone!!''"]
        sanitize_idempotent [of ascii_runtime "lit ''?! ''"]
  by (simp add: lit_def is_word_def ascii_alnum_def ascii_runtime_def)

text \<open>
  C6 as it is written fails at two inputs without an alphanumeric character: the empty
  prompt keeps an empty stem, and a prompt of two underscores keeps both, since the
  underscore is a word character and \<open>\W+\<close> leaves it alone.
\<close>

theorem sanitize_empty_stem:
  "sub_W ascii_runtime (lit '''') = [] \<and> sub_W ascii_runtime (lit ''__'') = lit ''__''"
  by (simp add: lit_def is_word_def)

subsection \<open>The probe for an unused path\<close>

lemma probe_free: "\<not> path_exists fs (probe fs sp b full c)"
  by (induction fs sp b full c rule: probe.induct) (subst probe.simps, simp)

lemma probe_run:
  "c \<le> N \<Longrightarrow> \<forall>k. c \<le> k \<and> k < N \<longrightarrow> path_exists fs (join sp (numbered b k))
   \<Longrightarrow> \<not> path_exists fs (join sp (numbered b N))
   \<Longrightarrow> path_exists fs full
   \<Longrightarrow> probe fs sp b full c = join sp (numbered b N)"
proof (induction "N - c" arbitrary: c full)
  case 0
  then have "c = N" by simp
  with 0 show ?case
    by (simp add: probe.simps [of fs sp b full] probe.simps [of fs sp b "join sp (numbered b N)"])
next
  case (Suc d)
  then have lt: "c < N" by simp
  with Suc.prems have ex: "path_exists fs (join sp (numbered b c))" by simp
  have "probe fs sp b (join sp (numbered b c)) (c + 1) = join sp (numbered b N)"
    using Suc.hyps Suc.prems lt ex by (intro Suc.hyps(1)) auto
  with Suc.prems show ?case
    by (simp add: probe.simps [of fs sp b full])
qed

text \<open>
  C3. The path the probe resolves to never exists in the file system it was resolved
  against, whatever that holds; the loop always ends (\<open>probe\<close> is a total function).
  When the base path and its variants \<open>_1\<close> to \<open>_(N-1)\<close> exist, for an N of at least 1, and
  the variant \<open>_N\<close> does not, the resolved path is the variant \<open>_N\<close>.
\<close>

theorem unique_path_suffix:
  "\<not> path_exists fs (unique_path R fs sp prompt)
   \<and> (1 \<le> N \<and> path_exists fs (join sp (sub_W R prompt @ lit ''.mp3''))
        \<and> (\<forall>k. 1 \<le> k \<and> k < N \<longrightarrow>
               path_exists fs (join sp (sub_W R prompt @ lit ''_'' @ str_of_nat k @ lit ''.mp3'')))
        \<and> \<not> path_exists fs (join sp (sub_W R prompt @ lit ''_'' @ str_of_nat N @ lit ''.mp3''))
      \<longrightarrow> unique_path R fs sp prompt
            = join sp (sub_W R prompt @ lit ''_'' @ str_of_nat N @ lit ''.mp3''))"
proof -
  have stem: "\<And>k. numbered (filename_of R prompt) k
                 = sub_W R prompt @ lit ''_'' @ str_of_nat k @ lit ''.mp3''"
    by (simp add: numbered_def filename_of_def lit_def)
  have free: "\<not> path_exists fs (unique_path R fs sp prompt)"
    by (simp add: unique_path_def Let_def probe_free)
  have run: "unique_path R fs sp prompt = join sp (numbered (filename_of R prompt) N)"
    if "1 \<le> N" "path_exists fs (join sp (filename_of R prompt))"
       "\<forall>k. 1 \<le> k \<and> k < N \<longrightarrow> path_exists fs (join sp (numbered (filename_of R prompt) k))"
       "\<not> path_exists fs (join sp (numbered (filename_of R prompt) N))"
    using probe_run [OF that(1) that(3) that(4) that(2)]
    by (simp add: unique_path_def Let_def)
  show ?thesis
    using free run by (simp add: stem) (simp add: filename_of_def)
qed

text \<open>
  The theorem at a directory that already holds \<open>Test_Tone_.mp3\<close> and
  \<open>Test_Tone__1.mp3\<close>: the next artifact of the prompt \<open>Test Tone!!\<close> goes to
  \<open>Test_Tone__2.mp3\<close>.
\<close>

lemma sub_W_test_tone: "sub_W ascii_runtime (lit ''Test Tone!!'') = lit ''Test_Tone_''"
  by (simp add: lit_def is_word_def ascii_alnum_def ascii_runtime_def)

lemma str_of_nat_small:
  "str_of_nat 1 = lit ''1''" "str_of_nat (Suc 0) = lit ''1''" "str_of_nat 2 = lit ''2''"
  by (subst str_of_nat.simps, simp add: lit_def)+

theorem unique_path_suffix_witness:
  "unique_path ascii_runtime taken_twice (lit ''Output/2024-01-01'') (lit ''Test Tone!!'')
     = lit ''Output/2024-01-01/Test_Tone__2.mp3''
   \<and> \<not> path_exists taken_twice (lit ''Output/2024-01-01/Test_Tone__2.mp3'')"
proof -
  let ?sp = "lit ''Output/2024-01-01''"
  let ?stem = "sub_W ascii_runtime (lit ''Test Tone!!'')"
  have base: "path_exists taken_twice (join ?sp (?stem @ lit ''.mp3''))"
    by (simp add: sub_W_test_tone) (simp add: taken_twice_def path_exists_def join_def lit_def)
  have one: "path_exists taken_twice (join ?sp (?stem @ lit ''_'' @ str_of_nat 1 @ lit ''.mp3''))"
    by (simp add: sub_W_test_tone str_of_nat_small)
       (simp add: taken_twice_def path_exists_def join_def lit_def)
  have below: "\<forall>k. 1 \<le> k \<and> k < 2 \<longrightarrow>
      path_exists taken_twice (join ?sp (?stem @ lit ''_'' @ str_of_nat k @ lit ''.mp3''))"
  proof (intro allI impI)
    fix k :: nat
    assume "1 \<le> k \<and> k < 2"
    then have "k = 1" by simp
    with one show "path_exists taken_twice
      (join ?sp (?stem @ lit ''_'' @ str_of_nat k @ lit ''.mp3''))" by simp
  qed
  have two: "join ?sp (?stem @ lit ''_'' @ str_of_nat 2 @ lit ''.mp3'')
               = lit ''Output/2024-01-01/Test_Tone__2.mp3''"
    by (simp add: sub_W_test_tone str_of_nat_small) (simp add: join_def lit_def)
  have free: "\<not> path_exists taken_twice (lit ''Output/2024-01-01/Test_Tone__2.mp3'')"
    by (simp add: taken_twice_def path_exists_def lit_def)
  from unique_path_suffix [of taken_twice ascii_runtime ?sp "lit ''Test Tone!!''" 2]
       base below free two
  show ?thesis by simp
qed

section \<open>Properties of the wait time\<close>












section \<open>Properties of the waveform post-processing\<close>

subsection \<open>Rounding to binary32\<close>

lemma blen_le: "n < 2 ^ k \<Longrightarrow> blen n \<le> k"
proof (induction k arbitrary: n)
  case 0
  then have "n = 0" by simp
  then show ?case by (subst blen.simps) simp
next
  case (Suc k)
  from Suc.prems have "n div 2 < 2 ^ k" by simp
  then have "blen (n div 2) \<le> k" by (rule Suc.IH)
  then show ?case by (subst blen.simps) simp
qed

lemma round_even_le: "x \<le> of_int N \<Longrightarrow> round_even x \<le> N"
proof -
  assume le: "x \<le> of_int N"
  then have fl: "\<lfloor>x\<rfloor> \<le> N" by (simp add: floor_le_iff) 
  show ?thesis
  proof (cases "\<lfloor>x\<rfloor> = N")
    case True
    have "of_int \<lfloor>x\<rfloor> \<le> x" by simp
    with True le have "x - of_int \<lfloor>x\<rfloor> = 0" by simp
    then show ?thesis using True by (simp add: round_even_def Let_def)
  next
    case False
    with fl have "\<lfloor>x\<rfloor> + 1 \<le> N" by simp
    then show ?thesis by (simp add: round_even_def Let_def)
  qed
qed

lemma round_even_nonneg: "0 \<le> x \<Longrightarrow> 0 \<le> round_even x"
  by (simp add: round_even_def Let_def)

text \<open>Rounding to a multiple of \<open>2 ^ e\<close> does not pass a bound that is such a multiple.\<close>

lemma round_scaled_le:
  fixes x :: rat
  assumes "x \<le> of_int (B * 2 ^ K)" and "e \<le> K"
  shows "round_even (x / 2 ^ e) * 2 ^ e \<le> B * 2 ^ K"
proof -
  have split: "(2::int) ^ K = 2 ^ (K - e) * 2 ^ e"
    using assms(2) by (simp flip: power_add)
  have "x / 2 ^ e \<le> of_int (B * 2 ^ K) / 2 ^ e"
    using assms(1) by (simp add: divide_right_mono)
  also have "\<dots> = of_int (B * 2 ^ (K - e))"
    by (simp add: split)
  finally have "round_even (x / 2 ^ e) \<le> B * 2 ^ (K - e)"
    by (rule round_even_le)
  then have "round_even (x / 2 ^ e) * 2 ^ e \<le> B * 2 ^ (K - e) * 2 ^ e"
    by simp
  then show ?thesis
    by (simp add: split mult.assoc)
qed

lemma round_f32_bounded:
  assumes B: "0 < B" "B < 2 ^ 24" and q: "\<bar>q\<bar> \<le> of_int B"
  shows "\<exists>r. round_f32 q = Fin r \<and> \<bar>r\<bar> \<le> of_int B"
proof -
  define K :: nat where "K = 149"
  define x where "x = \<bar>q\<bar> * 2 ^ K"
  define e where "e = blen (nat \<lfloor>x\<rfloor>) - 24"
  define m where "m = round_even (x / 2 ^ e) * 2 ^ e"
  have x0: "0 \<le> x" by (simp add: x_def)
  have xB: "x \<le> of_int (B * 2 ^ K)"
    using q by (simp add: x_def)
  then have "\<lfloor>x\<rfloor> \<le> B * 2 ^ K" by (simp add: floor_le_iff)
  also have "\<dots> < 2 ^ 24 * 2 ^ K" using B by simp
  also have "\<dots> = 2 ^ (24 + K)" by (simp only: power_add)
  finally have "nat \<lfloor>x\<rfloor> < 2 ^ (24 + K)"
    using x0 by (simp add: nat_less_iff)
  then have "blen (nat \<lfloor>x\<rfloor>) \<le> 24 + K" by (rule blen_le)
  then have e: "e \<le> K" by (simp add: e_def)
  have mB: "m \<le> B * 2 ^ K"
    unfolding m_def using xB e by (rule round_scaled_le)
  have m0: "0 \<le> m"
    using x0 by (simp add: m_def round_even_nonneg)
  have "B * 2 ^ K < 2 ^ 24 * (2::int) ^ K"
    using B by simp
  also have "\<dots> \<le> 2 ^ 128 * (2::int) ^ K"
    by simp
  also have "\<dots> = 2 ^ 277"
    by (simp add: K_def flip: power_add)
  finally have small: "\<not> 2 ^ 277 \<le> m" using mB by simp
  have val: "round_f32 q = Fin (sgn q * of_int m / 2 ^ K)"
    using small unfolding round_f32_def Let_def m_def e_def x_def K_def by simp
  have "\<bar>sgn q * of_int m / 2 ^ K\<bar> \<le> (of_int m / 2 ^ K :: rat)"
    using m0 by (cases "q = 0") (simp_all add: abs_mult abs_sgn_eq)
  also have "\<dots> \<le> of_int (B * 2 ^ K) / 2 ^ K"
    using mB by (intro divide_right_mono) (simp_all del: of_int_mult of_int_power)
  also have "\<dots> = of_int B" by simp
  finally show ?thesis using val by blast
qed

lemma round_f32_unit: "\<bar>q\<bar> \<le> 1 \<Longrightarrow> \<exists>r. round_f32 q = Fin r \<and> \<bar>r\<bar> \<le> 1"
  using round_f32_bounded [of 1 q] by simp

lemma round_f32_full: "\<bar>q\<bar> \<le> 32767 \<Longrightarrow> \<exists>r. round_f32 q = Fin r \<and> \<bar>r\<bar> \<le> 32767"
  using round_f32_bounded [of 32767 q] by simp

lemma round_even_of_int: "round_even (of_int n) = n"
  by (simp add: round_even_def)

lemma round_f32_neg:
  assumes "round_f32 q = Fin r"
  shows "round_f32 (- q) = Fin (- r)"
proof -
  define m where "m = round_even (\<bar>q\<bar> * 2 ^ 149 / 2 ^ (blen (nat \<lfloor>\<bar>q\<bar> * 2 ^ 149\<rfloor>) - 24))
                        * 2 ^ (blen (nat \<lfloor>\<bar>q\<bar> * 2 ^ 149\<rfloor>) - 24)"
  have pos: "round_f32 q = (if 2 ^ 277 \<le> m then (if 0 < q then PInf else NInf)
                           else Fin (sgn q * of_int m / 2 ^ 149))"
    unfolding round_f32_def Let_def m_def ..
  have neg: "round_f32 (- q) = (if 2 ^ 277 \<le> m then (if 0 < - q then PInf else NInf)
                           else Fin (sgn (- q) * of_int m / 2 ^ 149))"
    unfolding round_f32_def Let_def m_def abs_minus_cancel ..
  show ?thesis
  proof (cases "2 ^ 277 \<le> m")
    case True
    with pos assms show ?thesis by (simp split: if_splits)
  next
    case False
    with pos assms have "r = sgn q * of_int m / 2 ^ 149" by simp
    with neg False show ?thesis by (simp add: sgn_minus)
  qed
qed

text \<open>
  A number with at most 24 significant binary digits and a unit that binary32 has is
  represented exactly.
\<close>

lemma round_f32_dyadic:
  assumes B: "0 < B" "B < 2 ^ 24" and j: "j \<le> 149"
  shows "round_f32 (of_int B / 2 ^ j) = Fin (of_int B / 2 ^ j)"
proof -
  define K :: nat where "K = 149"
  define q :: rat where "q = of_int B / 2 ^ j"
  define x where "x = \<bar>q\<bar> * 2 ^ K"
  define e where "e = blen (nat \<lfloor>x\<rfloor>) - 24"
  define m where "m = round_even (x / 2 ^ e) * 2 ^ e"
  have jK: "j \<le> K" using j by (simp add: K_def)
  have q0: "0 < q" using B by (simp add: q_def)
  have splitK: "(2::rat) ^ K = 2 ^ (K - j) * 2 ^ j"
    using jK by (simp flip: power_add)
  have x: "x = of_int (B * 2 ^ (K - j))"
    using B by (simp add: x_def q_def splitK)
  then have "\<lfloor>x\<rfloor> = B * 2 ^ (K - j)" by (simp only: floor_of_int)
  moreover have "B * 2 ^ (K - j) < 2 ^ 24 * (2::int) ^ (K - j)"
    using B by simp
  ultimately have "\<lfloor>x\<rfloor> < 2 ^ (24 + (K - j))"
    by (simp only: power_add)
  moreover have "0 \<le> x" using B by (simp add: x)
  ultimately have "nat \<lfloor>x\<rfloor> < 2 ^ (24 + (K - j))"
    by (simp add: nat_less_iff)
  then have "blen (nat \<lfloor>x\<rfloor>) \<le> 24 + (K - j)" by (rule blen_le)
  then have e: "e \<le> K - j" by (simp add: e_def)
  have splite: "(2::rat) ^ (K - j) = 2 ^ (K - j - e) * 2 ^ e"
    using e by (simp flip: power_add)
  have splite': "(2::int) ^ (K - j) = 2 ^ (K - j - e) * 2 ^ e"
    using e by (simp flip: power_add)
  have "x / 2 ^ e = of_int (B * 2 ^ (K - j - e))"
    by (simp add: x splite)
  then have "round_even (x / 2 ^ e) = B * 2 ^ (K - j - e)"
    by (simp only: round_even_of_int)
  then have m: "m = B * 2 ^ (K - j)"
    by (simp add: m_def splite' mult.assoc)
  have "m < 2 ^ 24 * (2::int) ^ (K - j)"
    using B by (simp add: m)
  also have "\<dots> \<le> 2 ^ 24 * (2::int) ^ K"
    by (simp add: power_increasing)
  also have "\<dots> \<le> 2 ^ 277"
    by (simp add: K_def flip: power_add)
  finally have small: "\<not> 2 ^ 277 \<le> m" by simp
  have "round_f32 q = Fin (sgn q * of_int m / 2 ^ K)"
    using small unfolding round_f32_def Let_def m_def e_def x_def K_def by simp
  also have "sgn q * of_int m / 2 ^ K = q"
  proof -
    have "sgn q = 1" using q0 by simp
    then show ?thesis by (simp add: m q_def splitK)
  qed
  finally show ?thesis by (simp add: q_def)
qed

lemma blen_zero: "blen 0 = 0"
  by (subst blen.simps) simp

lemma round_f32_zero: "round_f32 0 = Fin 0"
  unfolding round_f32_def Let_def by (simp add: blen_zero round_even_def)

lemma round_f32_exact:
  "round_f32 1 = Fin 1" "round_f32 (- 1) = Fin (- 1)"
  "round_f32 32767 = Fin 32767" "round_f32 (- 32767) = Fin (- 32767)"
proof -
  show one: "round_f32 1 = Fin 1"
    using round_f32_dyadic [of 1 0] by simp
  show full: "round_f32 32767 = Fin 32767"
    using round_f32_dyadic [of 32767 0] by simp
  show "round_f32 (- 1) = Fin (- 1)"
    using round_f32_neg [OF one] .
  show "round_f32 (- 32767) = Fin (- 32767)"
    using round_f32_neg [OF full] .
qed

subsection \<open>Finite, non-silent input\<close>

lemma foldl_fmax_Fin: "foldl fmax (Fin a) (map Fin qs) = Fin (foldl max a qs)"
  by (induction qs arbitrary: a) simp_all

lemma foldl_max_Max: "foldl max a qs = Max (set (a # qs))"
  for a :: rat
proof -
  have "foldl max a qs = fold max qs a"
    by (induction qs arbitrary: a) (simp_all add: max.commute)
  also have "\<dots> = Max (set (a # qs))"
    by (rule Max.set_eq_fold [symmetric])
  finally show ?thesis .
qed

lemma tensor_max_abs_Fin:
  assumes "concat qt \<noteq> []"
  shows "tensor_max (map (map fabs) (map (map Fin) qt))
           = Inr (Fin (Max (abs ` set (concat qt))))"
proof -
  have flat: "concat (map (map fabs) (map (map Fin) qt)) = map Fin (map abs (concat qt))"
    by (simp add: map_concat comp_def)
  obtain a qs where aq: "map abs (concat qt) = a # qs"
    using assms by (cases "map abs (concat qt)") auto
  then have "abs ` set (concat qt) = set (a # qs)"
    by (metis set_map)
  then show ?thesis
    unfolding tensor_max_def flat aq
    by (simp only: list.map list.case foldl_fmax_Fin foldl_max_Max)
qed

lemma peak_normalize_Fin:
  assumes "concat qt \<noteq> []"
  shows "peak_normalize (map (map Fin) qt)
           = Inr (map (map (\<lambda>q. fdiv (Fin q) (Fin (Max (abs ` set (concat qt)))))) qt)"
  unfolding peak_normalize_def tensor_max_abs_Fin [OF assms]
  by (simp add: comp_def del: fdiv.simps)

lemma trunc_zero_bound:
  assumes "\<bar>s\<bar> \<le> 32767"
  shows "\<bar>trunc_zero s\<bar> \<le> 32767"
proof (cases "0 \<le> s")
  case True
  with assms have "\<lfloor>s\<rfloor> \<le> 32767" "0 \<le> \<lfloor>s\<rfloor>"
    by (simp_all add: floor_le_iff)
  with True show ?thesis by (simp add: trunc_zero_def)
next
  case False
  from assms have "- 32767 \<le> s" by (simp add: abs_le_iff)
  then have "- 32767 \<le> \<lceil>s\<rceil>" by (simp add: le_ceiling_iff)
  moreover from False have "\<lceil>s\<rceil> \<le> 0" by (simp add: ceiling_le_iff)
  moreover from False have "trunc_zero s = \<lceil>s\<rceil>" by (simp add: trunc_zero_def)
  ultimately show ?thesis by arith
qed

lemma to_int16_in_range: "\<bar>s\<bar> \<le> 32767 \<Longrightarrow> to_int16 undef (Fin s) = trunc_zero s"
  using trunc_zero_bound [of s] by (auto simp: abs_le_iff)

lemma scale16_sample:
  assumes M: "0 < M" and q: "\<bar>q\<bar> \<le> M"
  shows "\<exists>s. scale16 (fdiv (Fin q) (Fin M)) = Fin s \<and> \<bar>s\<bar> \<le> 32767
             \<and> (\<bar>q\<bar> = M \<longrightarrow> \<bar>s\<bar> = 32767)"
proof -
  have "\<bar>q / M\<bar> \<le> 1" using M q by simp
  then obtain r where r: "round_f32 (q / M) = Fin r" "\<bar>r\<bar> \<le> 1"
    using round_f32_unit by blast
  have clamp: "fclamp (Fin r) = Fin r"
    using r(2) by (auto simp: max_def min_def abs_le_iff)
  have "\<bar>r * 32767\<bar> \<le> 32767" using r(2) by (simp add: abs_mult)
  then obtain s where s: "round_f32 (r * 32767) = Fin s" "\<bar>s\<bar> \<le> 32767"
    using round_f32_full by blast
  have "fdiv (Fin q) (Fin M) = Fin r"
    using M r(1) by simp
  moreover have "scale16 (Fin r) = Fin s"
    by (simp only: scale16_def clamp fmul.simps s(1))
  ultimately have val: "scale16 (fdiv (Fin q) (Fin M)) = Fin s"
    by simp
  have "\<bar>s\<bar> = 32767" if "\<bar>q\<bar> = M"
  proof (cases "0 \<le> q")
    case True
    with that M have "q / M = 1" by simp
    with r(1) have "r = 1" by (simp add: round_f32_exact)
    with s(1) show ?thesis by (simp add: round_f32_exact)
  next
    case False
    with that have "q = - M" by simp
    with M have "q / M = - 1" by simp
    with r(1) have "r = - 1" by (simp add: round_f32_exact)
    with s(1) show ?thesis by (simp add: round_f32_exact)
  qed
  with val s(2) show ?thesis by blast
qed

lemma trunc_zero_full:
  assumes "\<bar>s\<bar> = 32767"
  shows "\<bar>trunc_zero s\<bar> = 32767"
proof (cases "0 \<le> s")
  case True
  with assms have "s = 32767" by simp
  then show ?thesis by (simp add: trunc_zero_def)
next
  case False
  with assms have "s = - 32767" by simp
  then show ?thesis by (simp add: trunc_zero_def)
qed

lemma list_all2_map_map:
  "(\<forall>row\<in>set xs. \<forall>x\<in>set row. P (f x) (g x))
   \<Longrightarrow> list_all2 (list_all2 P) (map (map f) xs) (map (map g) xs)"
  by (simp add: list_all2_map1 list_all2_map2 list_all2_same)

text \<open>
  C4, as the code has it. For every input whose samples are all finite and not all zero,
  the quantised output has maximum absolute sample value exactly 32767: every output
  sample lies between -32767 and 32767, and a sample of peak magnitude becomes 32767 or
  -32767. Each output sample is the clamped, normalised sample scaled by 32767 in
  binary32 and then truncated toward zero, not rounded to the nearest integer.
\<close>

theorem post_process_peak:
  assumes "\<exists>q\<in>set (concat qt). q \<noteq> 0"
  shows "\<exists>normal pcm.
           peak_normalize (map (map Fin) qt) = Inr normal
           \<and> post_process undef (map (map Fin) qt) = Inr pcm
           \<and> list_all2 (list_all2 (\<lambda>x y. \<exists>s. scale16 x = Fin s \<and> \<bar>s\<bar> \<le> 32767 \<and> y = trunc_zero s))
                normal pcm
           \<and> (\<forall>y\<in>set (concat pcm). \<bar>y\<bar> \<le> 32767)
           \<and> (\<exists>y\<in>set (concat pcm). \<bar>y\<bar> = 32767)"
proof -
  define M where "M = Max (abs ` set (concat qt))"
  define normal where "normal = map (map (\<lambda>q. fdiv (Fin q) (Fin M))) qt"
  define pcm where "pcm = map (map (\<lambda>x. to_int16 undef (scale16 x))) normal"
  from assms have ne: "concat qt \<noteq> []" by (metis empty_iff empty_set)
  have fin: "finite (abs ` set (concat qt))" by simp
  have le: "\<bar>q\<bar> \<le> M" if "q \<in> set (concat qt)" for q
    unfolding M_def using that by (intro Max_ge) auto
  from assms obtain q0 where "q0 \<in> set (concat qt)" "q0 \<noteq> 0" by blast
  with le [of q0] have M0: "0 < M" by simp
  have "M \<in> abs ` set (concat qt)"
    unfolding M_def using ne by (intro Max_in) auto
  then obtain qM where qM: "qM \<in> set (concat qt)" "\<bar>qM\<bar> = M" by auto
  have pn: "peak_normalize (map (map Fin) qt) = Inr normal"
    by (simp add: peak_normalize_Fin [OF ne] normal_def M_def)
  then have pp: "post_process undef (map (map Fin) qt) = Inr pcm"
    by (simp add: post_process_def pcm_def)
  have sample: "\<exists>s. scale16 (fdiv (Fin q) (Fin M)) = Fin s \<and> \<bar>s\<bar> \<le> 32767
                  \<and> to_int16 undef (scale16 (fdiv (Fin q) (Fin M))) = trunc_zero s
                  \<and> (\<bar>q\<bar> = M \<longrightarrow> \<bar>trunc_zero s\<bar> = 32767)"
    if "q \<in> set (concat qt)" for q
    using scale16_sample [OF M0 le [OF that]]
    by (auto simp: to_int16_in_range trunc_zero_full simp del: fdiv.simps to_int16.simps)
  have rel: "list_all2 (list_all2 (\<lambda>x y. \<exists>s. scale16 x = Fin s \<and> \<bar>s\<bar> \<le> 32767 \<and> y = trunc_zero s))
               normal pcm"
  proof -
    have "\<forall>row\<in>set qt. \<forall>q\<in>set row.
            \<exists>s. scale16 (fdiv (Fin q) (Fin M)) = Fin s \<and> \<bar>s\<bar> \<le> 32767
              \<and> to_int16 undef (scale16 (fdiv (Fin q) (Fin M))) = trunc_zero s"
    proof (intro ballI)
      fix row q
      assume "row \<in> set qt" "q \<in> set row"
      then have "q \<in> set (concat qt)" by auto
      from sample [OF this]
      show "\<exists>s. scale16 (fdiv (Fin q) (Fin M)) = Fin s \<and> \<bar>s\<bar> \<le> 32767
                \<and> to_int16 undef (scale16 (fdiv (Fin q) (Fin M))) = trunc_zero s"
        by blast
    qed
    then have "list_all2 (list_all2 (\<lambda>x y. \<exists>s. scale16 x = Fin s \<and> \<bar>s\<bar> \<le> 32767 \<and> y = trunc_zero s))
                 (map (map (\<lambda>q. fdiv (Fin q) (Fin M))) qt)
                 (map (map (\<lambda>q. to_int16 undef (scale16 (fdiv (Fin q) (Fin M))))) qt)"
      by (rule list_all2_map_map)
    then show ?thesis
      by (simp add: pcm_def normal_def comp_def del: fdiv.simps to_int16.simps)
  qed
  have flat: "concat pcm = map (\<lambda>q. to_int16 undef (scale16 (fdiv (Fin q) (Fin M)))) (concat qt)"
    by (simp add: pcm_def normal_def map_concat comp_def del: fdiv.simps to_int16.simps)
  have bound: "\<forall>y\<in>set (concat pcm). \<bar>y\<bar> \<le> 32767"
  proof
    fix y
    assume "y \<in> set (concat pcm)"
    then obtain q where "q \<in> set (concat qt)"
      and "y = to_int16 undef (scale16 (fdiv (Fin q) (Fin M)))"
      unfolding flat by auto
    with sample [of q] trunc_zero_bound show "\<bar>y\<bar> \<le> 32767"
      by (metis f32.inject)
  qed
  have peak: "\<exists>y\<in>set (concat pcm). \<bar>y\<bar> = 32767"
  proof -
    from sample [OF qM(1)] qM(2)
    have "\<bar>to_int16 undef (scale16 (fdiv (Fin qM) (Fin M)))\<bar> = 32767"
      by (metis f32.inject)
    moreover have "to_int16 undef (scale16 (fdiv (Fin qM) (Fin M))) \<in> set (concat pcm)"
      unfolding flat using qM(1) by (simp del: fdiv.simps to_int16.simps)
    ultimately show ?thesis by blast
  qed
  from pn pp rel bound peak show ?thesis by blast
qed

lemma round_f32_examples:
  "round_f32 (1 / 4) = Fin (1 / 4)"
  "round_f32 (32767 / 4) = Fin (32767 / 4)"
  "round_f32 (- (1 / 2)) = Fin (- (1 / 2))"
  "round_f32 (- (32767 / 2)) = Fin (- (32767 / 2))"
proof -
  show "round_f32 (1 / 4) = Fin (1 / 4)"
    using round_f32_dyadic [of 1 2] by simp
  show "round_f32 (32767 / 4) = Fin (32767 / 4)"
    using round_f32_dyadic [of 32767 2] by simp
  have "round_f32 (1 / 2) = Fin (1 / 2)"
    using round_f32_dyadic [of 1 1] by simp
  then show "round_f32 (- (1 / 2)) = Fin (- (1 / 2))"
    by (rule round_f32_neg)
  have "round_f32 (32767 / 2) = Fin (32767 / 2)"
    using round_f32_dyadic [of 32767 1] by simp
  then show "round_f32 (- (32767 / 2)) = Fin (- (32767 / 2))"
    by (rule round_f32_neg)
qed

lemma trunc_zero_examples:
  "trunc_zero (32767 / 4) = 8191" "trunc_zero (- (32767 / 2)) = - 16383"
proof -
  have "\<lfloor>32767 / 4 :: rat\<rfloor> = 8191"
    by (rule floor_unique) simp_all
  then show "trunc_zero (32767 / 4) = 8191"
    by (simp add: trunc_zero_def)
  have "\<lceil>- (32767 / 2) :: rat\<rceil> = - 16383"
    by (rule ceiling_unique) simp_all
  then show "trunc_zero (- (32767 / 2)) = - 16383"
    by (simp add: trunc_zero_def)
qed

lemma trunc_zero_int: "trunc_zero (of_int n) = n"
  by (simp add: trunc_zero_def)

lemma post_process_example:
  "post_process undef (map (map Fin) [[1, 1 / 4], [- (1 / 2), 0]])
     = Inr [[32767, 8191], [- 16383, 0]]"
  using trunc_zero_int [of 32767] trunc_zero_int [of 0]
  by (simp add: post_process_def peak_normalize_def tensor_max_def scale16_def
        trunc_zero_examples round_f32_exact round_f32_examples round_f32_zero)

text \<open>
  The theorem at a stereo input of two samples per channel, with peak 1: the output is
  32767, 8191 in one channel and -16383, 0 in the other.
\<close>

theorem post_process_peak_witness:
  "(\<exists>q\<in>set (concat [[1, 1 / 4], [- (1 / 2), 0 :: rat]]). q \<noteq> 0)
   \<and> post_process (\<lambda>x. 0) (map (map Fin) [[1, 1 / 4], [- (1 / 2), 0]])
       = Inr [[32767, 8191], [- 16383, 0]]
   \<and> (\<exists>y\<in>set (concat [[32767, 8191], [- 16383, 0 :: int]]). \<bar>y\<bar> = 32767)"
proof -
  have hyp: "\<exists>q\<in>set (concat [[1, 1 / 4], [- (1 / 2), 0 :: rat]]). q \<noteq> 0"
    by simp
  from post_process_peak [OF hyp, of "\<lambda>x. 0"] obtain pcm
    where "post_process (\<lambda>x. 0) (map (map Fin) [[1, 1 / 4], [- (1 / 2), 0]]) = Inr pcm"
      and "\<exists>y\<in>set (concat pcm). \<bar>y\<bar> = 32767"
    by blast
  with post_process_example [of "\<lambda>x. 0"] hyp show ?thesis
    by simp
qed

text \<open>
  C4 as it is written fails. The sample 1/4 under the peak 1 scales to 8191.75 and is
  stored as 8191, where rounding to the nearest integer gives 8192. And an input that
  holds an infinity is not silent, yet its peak is not 32767: the infinity becomes NaN,
  every finite sample becomes 0 (shown where the platform converts NaN to 0).
\<close>

theorem post_process_truncates:
  "post_process (\<lambda>x. 0) [[Fin 1, Fin (1 / 4)]] = Inr [[32767, 8191]]
   \<and> quantize_nearest (1 / 4) = 8192
   \<and> post_process (\<lambda>x. 0) [[PInf, Fin 1]] = Inr [[0, 0]]"
proof -
  have "post_process (\<lambda>x. 0) [[Fin 1, Fin (1 / 4)]] = Inr [[32767, 8191]]"
    using trunc_zero_int [of 32767]
    by (simp add: post_process_def peak_normalize_def tensor_max_def scale16_def
          trunc_zero_examples round_f32_exact round_f32_examples)
  moreover have "quantize_nearest (1 / 4) = 8192"
  proof -
    have "\<lfloor>32769 / 4 :: rat\<rfloor> = 8192"
      by (rule floor_unique) simp_all
    then show ?thesis
      by (simp add: quantize_nearest_def round_def)
  qed
  moreover have "post_process (\<lambda>x. 0) [[PInf, Fin 1]] = Inr [[0, 0]]"
    using trunc_zero_int [of 0]
    by (simp add: post_process_def peak_normalize_def tensor_max_def scale16_def
          round_f32_zero)
  ultimately show ?thesis by simp
qed

subsection \<open>Silent input\<close>

lemma foldl_fmax_zero: "\<forall>x\<in>set xs. x = Fin 0 \<Longrightarrow> foldl fmax (Fin 0) xs = Fin 0"
  by (induction xs) simp_all

lemma tensor_max_silent:
  assumes "concat t \<noteq> []" and "\<forall>x\<in>set (concat t). x = Fin 0"
  shows "tensor_max (map (map fabs) t) = Inr (Fin 0)"
proof -
  have "fabs x = x" if "x \<in> set (concat t)" for x
    using assms(2) that by (metis fabs.simps(1) abs_zero)
  then have "map fabs (concat t) = concat t"
    by (intro map_idI)
  then have flat: "concat (map (map fabs) t) = concat t"
    by (simp add: map_concat)
  from assms obtain x xs where c: "concat t = x # xs"
    by (cases "concat t") auto
  with assms(2) have "x = Fin 0" "\<forall>y\<in>set xs. y = Fin 0"
    by simp_all
  then show ?thesis
    by (simp add: tensor_max_def flat c foldl_fmax_zero)
qed

text \<open>
  C1, as the code has it. For an all-zero input with at least one sample, the division by
  the global absolute maximum is carried out with the maximum zero: every sample becomes
  NaN after the division, stays NaN through the clamp and the scaling, and each output
  sample is what the platform's conversion of NaN to a 16-bit integer returns. The
  output is all-zero exactly when that conversion gives 0.
\<close>

theorem silence_gives_nan:
  assumes "concat t \<noteq> []" and "\<forall>x\<in>set (concat t). x = Fin 0"
  shows "peak_normalize t = Inr (map (map (\<lambda>x. NaN)) t)
         \<and> post_process undef t = Inr (map (map (\<lambda>x. undef NaN)) t)"
proof -
  have cell: "fdiv x (Fin 0) = NaN" if "row \<in> set t" "x \<in> set row" for row x
  proof -
    from that have "x \<in> set (concat t)" by auto
    with assms(2) have "x = Fin 0" by blast
    then show ?thesis by simp
  qed
  have "map (map (\<lambda>x. fdiv x (Fin 0))) t = map (map (\<lambda>x. NaN)) t"
    by (intro map_cong refl) (simp add: cell)
  then have pn: "peak_normalize t = Inr (map (map (\<lambda>x. NaN)) t)"
    by (simp add: peak_normalize_def tensor_max_silent [OF assms])
  then show ?thesis
    by (simp add: post_process_def scale16_def comp_def)
qed

text \<open>The theorem at two channels of two zero samples, on a platform that converts NaN to 0.\<close>

theorem silence_gives_nan_witness:
  "concat [[Fin 0, Fin 0], [Fin 0, Fin 0]] \<noteq> []
   \<and> peak_normalize [[Fin 0, Fin 0], [Fin 0, Fin 0]] = Inr [[NaN, NaN], [NaN, NaN]]
   \<and> post_process (\<lambda>x. 0) [[Fin 0, Fin 0], [Fin 0, Fin 0]] = Inr [[0, 0], [0, 0]]"
  using silence_gives_nan [of "[[Fin 0, Fin 0], [Fin 0, Fin 0]]" "\<lambda>x. 0"]
  by simp

text \<open>
  C1 as it is written fails: on one channel of two zero samples the division is not
  skipped, and both samples are NaN after it.
\<close>

theorem silence_divides_by_zero:
  "peak_normalize [[Fin 0, Fin 0]] = Inr [[NaN, NaN]]"
  by (simp add: peak_normalize_def tensor_max_def)

end
